theory Spec2Isabelle
  imports Complex_Main "HOL-Library.Multiset" "HOL-Library.Sublist"
begin

section \<open>Strings\<close>

text \<open>
  Python strings are modelled as \<^typ>\<open>string\<close>. \<open>str.lower\<close> and \<open>str.upper\<close> are
  modelled on the ASCII letters and leave every other character alone; chord tokens and
  the catalog's titles are ASCII text. The theorems about the matcher use nothing of
  \<open>lower\<close> but that it is a function.
\<close>

definition lower_char :: "char \<Rightarrow> char" where
  "lower_char c =
     (let n = (of_char c :: nat) in if 65 \<le> n \<and> n \<le> 90 then char_of (n + 32) else c)"

definition upper_char :: "char \<Rightarrow> char" where
  "upper_char c =
     (let n = (of_char c :: nat) in if 97 \<le> n \<and> n \<le> 122 then char_of (n - 32) else c)"

definition lower :: "string \<Rightarrow> string" where
  "lower s = map lower_char s"

definition upper :: "string \<Rightarrow> string" where
  "upper s = map upper_char s"

section \<open>The progression matcher\<close>

text \<open>
  \<open>SongDatabase._find_best_match\<close>. The inner \<open>for j in range(len(pattern))\<close> loop with its
  two \<open>break\<close>s is \<open>match_loop\<close>, run over the values of \<open>j\<close> still to come; the outer
  \<open>for i in range(len(progression))\<close> loop is \<open>offset_loop\<close>, carrying
  \<open>(best_match_index, best_match_length)\<close>. Both reads are in range where they happen:
  \<open>i + j\<close> is below the length of the extended progression by the guard before it, and
  \<open>j % len(pattern)\<close> is only computed inside a loop over a non-empty pattern.
\<close>

fun match_loop :: "string list \<Rightarrow> string list \<Rightarrow> nat \<Rightarrow> nat list \<Rightarrow> int \<Rightarrow> int" where
  "match_loop pattern extended_progression i [] match_length = match_length"
| "match_loop pattern extended_progression i (j # js) match_length =
     (if i + j \<ge> length extended_progression then match_length
      else if lower (extended_progression ! (i + j)) = lower (pattern ! (j mod length pattern))
           then match_loop pattern extended_progression i js (match_length + 1)
           else match_length)"

fun offset_loop :: "string list \<Rightarrow> string list \<Rightarrow> nat list \<Rightarrow> int \<times> int \<Rightarrow> int \<times> int" where
  "offset_loop pattern extended_progression [] best = best"
| "offset_loop pattern extended_progression (i # rest) (best_match_index, best_match_length) =
     (let match_length = match_loop pattern extended_progression i [0..<length pattern] 0
      in if match_length > best_match_length
         then offset_loop pattern extended_progression rest (int i, match_length)
         else offset_loop pattern extended_progression rest (best_match_index, best_match_length))"

definition find_best_match :: "string list \<Rightarrow> string list \<Rightarrow> int \<times> int" where
  "find_best_match pattern progression =
     offset_loop pattern (progression @ progression) [0..<length progression] (- 1, 0)"

text \<open>The run length the inner loop counts at one start offset.\<close>

definition match_run :: "string list \<Rightarrow> string list \<Rightarrow> nat \<Rightarrow> int" where
  "match_run pattern progression i =
     match_loop pattern (progression @ progression) i [0..<length pattern] 0"

text \<open>
  The run length as the specification words it, from \<open>j\<close> on: \<open>j\<close> counts up with no
  bound of its own, the pattern is read at \<open>j mod len(pattern)\<close>, and the run ends at the
  first mismatch or where \<open>i + j\<close> leaves the doubled progression. It is compared with
  \<open>match_run\<close>, which is the code.
\<close>

function spec_greedy_run :: "string list \<Rightarrow> string list \<Rightarrow> nat \<Rightarrow> nat \<Rightarrow> nat" where
  "spec_greedy_run pattern extended_progression i j =
     (if i + j \<ge> length extended_progression then 0
      else if lower (extended_progression ! (i + j)) = lower (pattern ! (j mod length pattern))
           then Suc (spec_greedy_run pattern extended_progression i (Suc j))
           else 0)"
  by pat_completeness auto
termination
  by (relation "measure (\<lambda>(pattern, ext, i, j). length ext - (i + j))") auto

declare spec_greedy_run.simps [simp del]

section \<open>The chord tokenizer\<close>

text \<open>
  \<open>re.findall(r'[A-Ga-g][#b]?|[/%|]', text)\<close>: the text is scanned from the left; at a
  root letter the match takes a following \<open>#\<close> or \<open>b\<close> when there is one (the \<open>?\<close> is
  greedy), at one of \<open>/ % |\<close> the match is that character, and any other character is
  passed over.
\<close>

definition is_root :: "char \<Rightarrow> bool" where
  "is_root c = (c \<in> set ''ABCDEFGabcdefg'')"

definition is_accidental :: "char \<Rightarrow> bool" where
  "is_accidental c = (c = CHR ''#'' \<or> c = CHR ''b'')"

definition is_mark :: "char \<Rightarrow> bool" where
  "is_mark c = (c = CHR ''/'' \<or> c = CHR ''%'' \<or> c = CHR ''|'')"

fun findall :: "string \<Rightarrow> string list" where
  "findall [] = []"
| "findall [c] = (if is_root c \<or> is_mark c then [[c]] else [])"
| "findall (c # d # rest) =
     (if is_root c
      then (if is_accidental d then [c, d] # findall rest else [c] # findall (d # rest))
      else if is_mark c then [c] # findall (d # rest)
      else findall (d # rest))"

text \<open>
  The \<open>while i < len(tokens)\<close> loop of \<open>parse_progression_from_text\<close>; every branch
  ends with \<open>i += 1\<close>.
\<close>

function parse_loop :: "string list \<Rightarrow> nat \<Rightarrow> string list \<Rightarrow> string list" where
  "parse_loop tokens i progression =
     (if i < length tokens
      then (let token = tokens ! i in
        if token = ''|'' then parse_loop tokens (i + 1) progression
        else if token = ''%''
          then (if progression \<noteq> []
                then parse_loop tokens (i + 1) (progression @ [last progression])
                else parse_loop tokens (i + 1) progression)
        else if token = ''/''
          then (if progression \<noteq> []
                then parse_loop tokens (i + 1) (progression @ [last progression])
                else parse_loop tokens (i + 1) progression)
        else parse_loop tokens (i + 1) (progression @ [upper token]))
      else progression)"
  by pat_completeness auto
termination
  by (relation "measure (\<lambda>(tokens, i, progression). length tokens - i)") auto

declare parse_loop.simps [simp del]

definition parse_progression_from_text :: "string \<Rightarrow> string list" where
  "parse_progression_from_text text = parse_loop (findall text) 0 []"

section \<open>Songs and the catalog\<close>

text \<open>
  The dataclass \<open>Song\<close>. Its fields have the types of their annotations, but for
  \<open>all_chords\<close>: \<open>add_song\<close> passes a string in that position, so the field holds
  either a list of chords or a string. \<open>Song\<close> is the generated constructor followed by
  \<open>__post_init__\<close>; an argument that the caller leaves out is \<open>None\<close> here. Nothing in
  the source reads or fills \<open>sections\<close>, a \<open>Dict\<close>; the model gives it names for keys and
  chord lists for values.
\<close>

datatype all_chords_value = Chords "string list" | Text string

record song =
  title :: string
  artist :: string
  progression :: "string list"
  all_chords :: all_chords_value
  source :: string
  sections :: "(string \<times> string list) list"

definition Song :: "string \<Rightarrow> string \<Rightarrow> string list \<Rightarrow> all_chords_value option \<Rightarrow> string option
    \<Rightarrow> (string \<times> string list) list option \<Rightarrow> song" where
  "Song title' artist' progression' all_chords' source' sections' =
     \<lparr>title = title', artist = artist', progression = progression',
      all_chords = (case all_chords' of None \<Rightarrow> Chords [] | Some c \<Rightarrow> c),
      source = (case source' of None \<Rightarrow> ''Jerry Garcia Song Book'' | Some s \<Rightarrow> s),
      sections = (case sections' of None \<Rightarrow> [] | Some d \<Rightarrow> d)\<rparr>"

text \<open>
  \<open>self.songs\<close> is a Python \<open>dict\<close>: it iterates in insertion order, and an assignment
  to a key it already has replaces the value where the key stands.
\<close>

type_synonym catalog = "(string \<times> song) list"

fun dict_set :: "('k \<times> 'v) list \<Rightarrow> 'k \<Rightarrow> 'v \<Rightarrow> ('k \<times> 'v) list" where
  "dict_set [] k v = [(k, v)]"
| "dict_set ((k', v') # d) k v =
     (if k' = k then (k', v) # d else (k', v') # dict_set d k v)"

definition dict_values :: "('k \<times> 'v) list \<Rightarrow> 'v list" where
  "dict_values d = map snd d"

definition dict_get :: "('k \<times> 'v) list \<Rightarrow> 'k \<Rightarrow> 'v option" where
  "dict_get d k = map_of d k"

section \<open>Ranking similar songs\<close>

text \<open>
  \<open>list.sort(key=..., reverse=True)\<close> is a stable sort into descending order of the key:
  entries with equal keys keep the order they had. The model is the insertion sort with
  that result; \<open>sort_reverse_sorted\<close>, \<open>sort_reverse_mset\<close> and \<open>sort_reverse_stable\<close>
  below are the three properties that determine it. \<open>slice_to xs n\<close> is the slice
  \<open>xs[:n]\<close>, which for a negative \<open>n\<close> leaves out the last \<open>-n\<close> elements.
\<close>

fun insert_reverse :: "('a \<Rightarrow> 'k::linorder) \<Rightarrow> 'a \<Rightarrow> 'a list \<Rightarrow> 'a list" where
  "insert_reverse key x [] = [x]"
| "insert_reverse key x (y # ys) =
     (if key y \<le> key x then x # y # ys else y # insert_reverse key x ys)"

fun sort_reverse :: "('a \<Rightarrow> 'k::linorder) \<Rightarrow> 'a list \<Rightarrow> 'a list" where
  "sort_reverse key [] = []"
| "sort_reverse key (x # xs) = insert_reverse key x (sort_reverse key xs)"

definition slice_to :: "'a list \<Rightarrow> int \<Rightarrow> 'a list" where
  "slice_to xs n = (if 0 \<le> n then take (nat n) xs else take (nat (int (length xs) + n)) xs)"

text \<open>
  \<open>find_similar_progressions\<close>. The similarity is the quotient of two Python ints, a
  float; the model keeps the exact quotient as a rational. Correct rounding is monotone,
  and two quotients with the same denominator below \<open>2^53\<close> that differ round to
  different floats, so the order of the floats is the order of the rationals for every
  progression a machine can hold. \<open>song_result\<close> is the body of the loop over the songs
  for one song: \<open>None\<close> where the loop appends nothing.
\<close>

type_synonym result = "song \<times> rat \<times> string list"

definition next_chords_from :: "string list \<Rightarrow> int \<Rightarrow> string list" where
  "next_chords_from song_progression next_chord_index =
     map (\<lambda>i. song_progression ! nat ((next_chord_index + int i) mod int (length song_progression)))
       [0..<5]"

definition song_result :: "string list \<Rightarrow> song \<Rightarrow> result option" where
  "song_result current_progression song =
     (let song_progression = progression song in
      if song_progression = [] then None
      else (case find_best_match current_progression song_progression of
        (best_match_index, best_match_length) \<Rightarrow>
          if best_match_length > 0
          then (let similarity = min 1 (of_int best_match_length / of_int (int (length current_progression)));
                    next_chord_index = (best_match_index + best_match_length) mod int (length song_progression)
                in Some (song, similarity, next_chords_from song_progression next_chord_index))
          else None))"

fun results_loop :: "string list \<Rightarrow> song list \<Rightarrow> result list \<Rightarrow> result list" where
  "results_loop current_progression [] results = results"
| "results_loop current_progression (song # rest) results =
     (case song_result current_progression song of
        None \<Rightarrow> results_loop current_progression rest results
      | Some r \<Rightarrow> results_loop current_progression rest (results @ [r]))"

definition similarity_of :: "result \<Rightarrow> rat" where
  "similarity_of x = fst (snd x)"

definition find_similar_progressions :: "catalog \<Rightarrow> string list \<Rightarrow> int \<Rightarrow> result list" where
  "find_similar_progressions songs' current_progression top_n =
     (if current_progression = [] then []
      else slice_to
        (sort_reverse similarity_of (results_loop current_progression (dict_values songs') []))
        top_n)"

section \<open>Storage\<close>

text \<open>
  The database object and the file it reads and writes are one state. The file
  \<open>jerry_in_a_box/data/songs.json\<close> (the field \<open>songs_json\<close>) is
  \<^item> absent: \<open>open\<close> raises \<open>FileNotFoundError\<close>;
  \<^item> there but not readable: \<open>open\<close> raises another \<open>OSError\<close>;
  \<^item> readable but not JSON: \<open>json.load\<close> raises \<open>JSONDecodeError\<close>;
  \<^item> JSON that the \<open>for\<close> loop cannot iterate over (a number, \<open>true\<close>, \<open>false\<close>,
    \<open>null\<close>): a \<open>TypeError\<close>;
  \<^item> \<open>Records\<close>: JSON whose items are all objects, that is an array of objects; an
    empty array, an empty object and an empty string give the loop no item and are
    \<open>Records []\<close>;
  \<^item> \<open>Non_object_after\<close>: JSON with an item that is not an object, given with the
    objects that stand before the first such item. The items of an object are its keys
    and those of a string its characters, so a non-empty object or string at the top
    is \<open>Non_object_after []\<close>. \<open>Song(**song_data)\<close> raises a \<open>TypeError\<close> at that item and
    nothing after it is read.

  An object is the list of its members; a member under one of the six field names
  carries a value of the field's type (\<open>null\<close> where the dataclass has the default
  \<open>None\<close>), any other member is \<open>Unexpected\<close> with its key. A value of another type under
  a field name is outside this model. \<open>writable\<close> says whether \<open>os.makedirs\<close> and
  \<open>open(..., 'w')\<close> succeed; where they do not, \<open>_save_songs\<close> raises an \<open>OSError\<close>. An
  operation returns the state it leaves, with the exception when it raises.
\<close>

datatype entry = Title string | Artist string | Progression "string list"
  | All_chords "string list option" | Source string
  | Sections "(string \<times> string list) list option" | Unexpected string

datatype file_state = NoFile | Unreadable | Undecodable | Not_iterable
  | Records "entry list list" | Non_object_after "entry list list"

datatype py_error = OSError | JSONDecodeError | TypeError

record database =
  songs :: catalog
  songs_json :: file_state
  writable :: bool

datatype outcome = Returned database | Raised py_error database

text \<open>
  \<open>Song(**song_data)\<close>: a keyword that is no field, or a required field without a value,
  is a \<open>TypeError\<close>. Of two members with one key \<open>json.load\<close> keeps the last.
\<close>

definition member_of :: "(entry \<Rightarrow> 'a option) \<Rightarrow> entry list \<Rightarrow> 'a option" where
  "member_of f song_data =
     (case List.map_filter f song_data of [] \<Rightarrow> None | v # vs \<Rightarrow> Some (last (v # vs)))"

definition Song_of_data :: "entry list \<Rightarrow> py_error + song" where
  "Song_of_data song_data =
     (if \<exists>e \<in> set song_data. case e of Unexpected k \<Rightarrow> True | _ \<Rightarrow> False then Inl TypeError
      else (case (member_of (\<lambda>e. case e of Title v \<Rightarrow> Some v | _ \<Rightarrow> None) song_data,
                  member_of (\<lambda>e. case e of Artist v \<Rightarrow> Some v | _ \<Rightarrow> None) song_data,
                  member_of (\<lambda>e. case e of Progression v \<Rightarrow> Some v | _ \<Rightarrow> None) song_data) of
        (Some t, Some a, Some p) \<Rightarrow>
          Inr (Song t a p
            (case member_of (\<lambda>e. case e of All_chords v \<Rightarrow> Some v | _ \<Rightarrow> None) song_data of
               Some (Some v) \<Rightarrow> Some (Chords v) | _ \<Rightarrow> None)
            (member_of (\<lambda>e. case e of Source v \<Rightarrow> Some v | _ \<Rightarrow> None) song_data)
            (case member_of (\<lambda>e. case e of Sections v \<Rightarrow> Some v | _ \<Rightarrow> None) song_data of
               Some (Some v) \<Rightarrow> Some v | _ \<Rightarrow> None))
      | _ \<Rightarrow> Inl TypeError))"

definition song_record :: "song \<Rightarrow> entry list" where
  "song_record s = [Title (title s), Artist (artist s), Progression (progression s), Source (source s)]"

definition save_songs :: "database \<Rightarrow> outcome" where
  "save_songs db =
     (if writable db
      then Returned (db\<lparr>songs_json := Records (map song_record (dict_values (songs db)))\<rparr>)
      else Raised OSError db)"

definition sample_songs :: "entry list list" where
  "sample_songs =
     [[Title ''Ripple'', Artist ''Grateful Dead'',
       Progression [''G'', ''C'', ''G'', ''D'', ''G'', ''C'', ''G'', ''D'', ''C'', ''G'', ''D'', ''G'']],
      [Title ''Friend of the Devil'', Artist ''Grateful Dead'',
       Progression [''Am'', ''C'', ''G'', ''D'', ''Am'', ''C'', ''G'', ''D'', ''F'', ''C'', ''G'', ''D'']],
      [Title ''Scarlet Begonias'', Artist ''Grateful Dead'',
       Progression [''G'', ''C'', ''G'', ''D'', ''C'', ''G'', ''D'', ''G'']]]"

text \<open>
  The loop \<open>for song_data in ...: self.songs[song_data['title'].lower()] = Song(**song_data)\<close>,
  which \<open>_load_songs\<close> and \<open>_initialize_sample_songs\<close> share. Python evaluates the right
  side of the assignment first, so a record without a title fails in \<open>Song\<close>.
\<close>

fun store_loop :: "entry list list \<Rightarrow> database \<Rightarrow> outcome" where
  "store_loop [] db = Returned db"
| "store_loop (song_data # rest) db =
     (case Song_of_data song_data of
        Inl e \<Rightarrow> Raised e db
      | Inr s \<Rightarrow> store_loop rest (db\<lparr>songs := dict_set (songs db) (lower (title s)) s\<rparr>))"

definition initialize_sample_songs :: "database \<Rightarrow> outcome" where
  "initialize_sample_songs db =
     (case store_loop sample_songs db of
        Returned db' \<Rightarrow> save_songs db'
      | Raised e db' \<Rightarrow> Raised e db')"

text \<open>\<open>_load_songs\<close>: the \<open>except\<close> clause names \<open>FileNotFoundError\<close> and nothing else.\<close>

definition load_songs :: "database \<Rightarrow> outcome" where
  "load_songs db =
     (case songs_json db of
        NoFile \<Rightarrow> initialize_sample_songs db
      | Unreadable \<Rightarrow> Raised OSError db
      | Undecodable \<Rightarrow> Raised JSONDecodeError db
      | Not_iterable \<Rightarrow> Raised TypeError db
      | Records songs_data \<Rightarrow> store_loop songs_data db
      | Non_object_after songs_data \<Rightarrow>
          (case store_loop songs_data db of
             Returned db' \<Rightarrow> Raised TypeError db'
           | Raised e db' \<Rightarrow> Raised e db'))"

text \<open>\<open>SongDatabase.__init__\<close>, on a file system in the given state.\<close>

definition SongDatabase :: "file_state \<Rightarrow> bool \<Rightarrow> outcome" where
  "SongDatabase f w = load_songs \<lparr>songs = [], songs_json = f, writable = w\<rparr>"

text \<open>
  The objects that \<open>Song(**song_data)\<close> does not take, said without the constructor:
  one with a key that is no field, or without a title, an artist or a progression.
\<close>

definition malformed_record :: "entry list \<Rightarrow> bool" where
  "malformed_record song_data =
     (list_ex (\<lambda>e. case e of Unexpected k \<Rightarrow> True | _ \<Rightarrow> False) song_data
      \<or> list_all (\<lambda>e. case e of Title v \<Rightarrow> False | _ \<Rightarrow> True) song_data
      \<or> list_all (\<lambda>e. case e of Artist v \<Rightarrow> False | _ \<Rightarrow> True) song_data
      \<or> list_all (\<lambda>e. case e of Progression v \<Rightarrow> False | _ \<Rightarrow> True) song_data)"

text \<open>
  \<open>add_song\<close> calls \<open>Song(title, artist, progression, source)\<close> with positional arguments;
  the fourth parameter of \<open>Song\<close> is \<open>all_chords\<close>.
\<close>

definition add_song :: "database \<Rightarrow> string \<Rightarrow> string \<Rightarrow> string list \<Rightarrow> string \<Rightarrow> outcome" where
  "add_song db title' artist' progression' source' =
     save_songs (db\<lparr>songs :=
       dict_set (songs db) (lower title') (Song title' artist' progression' (Some (Text source')) None None)\<rparr>)"

section \<open>The matcher: bounds\<close>

lemma match_loop_lower: "match_length \<le> match_loop pattern ext i js match_length"
proof (induction js arbitrary: match_length)
  case Nil
  show ?case by simp
next
  case (Cons j js)
  from Cons.IH [of "match_length + 1"] show ?case by simp
qed

lemma match_loop_upper:
  "match_loop pattern ext i js match_length \<le> match_length + int (length js)"
proof (induction js arbitrary: match_length)
  case Nil
  show ?case by simp
next
  case (Cons j js)
  from Cons.IH [of "match_length + 1"] show ?case by simp
qed

lemma match_run_bounds: "0 \<le> match_run pattern prog i"
  "match_run pattern prog i \<le> int (length pattern)"
  using match_loop_lower [of 0 pattern "prog @ prog" i "[0..<length pattern]"]
    match_loop_upper [of pattern "prog @ prog" i "[0..<length pattern]" 0]
  by (simp_all add: match_run_def)

lemma offset_loop_bounds:
  assumes "0 \<le> snd best" "snd best \<le> int (length pattern)"
  shows "0 \<le> snd (offset_loop pattern (prog @ prog) offsets best)
    \<and> snd (offset_loop pattern (prog @ prog) offsets best) \<le> int (length pattern)"
  using assms
proof (induction offsets arbitrary: best)
  case Nil
  then show ?case by simp
next
  case (Cons i rest)
  obtain bi bl where best: "best = (bi, bl)" by (cases best)
  have run: "0 \<le> match_run pattern prog i"
    "match_run pattern prog i \<le> int (length pattern)"
    by (rule match_run_bounds)+
  show ?case
  proof (cases "match_run pattern prog i > bl")
    case True
    with Cons.IH [of "(int i, match_run pattern prog i)"] run best
    show ?thesis by (simp add: match_run_def)
  next
    case False
    with Cons.IH [of "(bi, bl)"] Cons.prems best
    show ?thesis by (simp add: match_run_def)
  qed
qed

text \<open>
  C2: for every non-empty pattern and non-empty progression, the match length that
  \<open>find_best_match\<close> returns is at least 0 and at most the length of the pattern.
\<close>

theorem find_best_match_length_bounds:
  assumes "pattern \<noteq> []" and "prog \<noteq> []"
  shows "0 \<le> snd (find_best_match pattern prog)
    \<and> snd (find_best_match pattern prog) \<le> int (length pattern)"
  unfolding find_best_match_def
  by (rule offset_loop_bounds) simp_all


theorem find_best_match_length_bounds_witness:
  "[''D'', ''G''] \<noteq> [] \<and> [''G'', ''C'', ''G'', ''D''] \<noteq> []
    \<and> 0 \<le> snd (find_best_match [''D'', ''G''] [''G'', ''C'', ''G'', ''D''])
    \<and> snd (find_best_match [''D'', ''G''] [''G'', ''C'', ''G'', ''D'']) \<le> int (length [''D'', ''G''])"
  using find_best_match_length_bounds [of "[''D'', ''G'']" "[''G'', ''C'', ''G'', ''D'']"] by simp


lemma match_loop_upt:
  "k \<le> n \<Longrightarrow> match_loop p e i [k..<n] acc
     = acc + min (int (n - k)) (int (spec_greedy_run p e i k))"
proof (induction "n - k" arbitrary: k acc)
  case 0
  then show ?case by simp
next
  case (Suc m)
  then have lt: "k < n" and m: "m = n - Suc k" and le: "Suc k \<le> n" by simp_all
  have upt: "[k..<n] = k # [Suc k..<n]" using lt by (rule upt_conv_Cons)
  note IH = Suc.hyps(1) [OF m le]
  show ?case
    unfolding upt
    using lt by (subst spec_greedy_run.simps) (auto simp add: IH min_def)
qed

lemma match_run_capped:
  "match_run p prog i = min (int (length p)) (int (spec_greedy_run p (prog @ prog) i 0))"
  unfolding match_run_def by (simp add: match_loop_upt)

lemma match_run_pos:
  assumes "p \<noteq> []" and "i < length prog"
  shows "(0 < match_run p prog i) = (lower (prog ! i) = lower (p ! 0))"
  unfolding match_run_capped using assms
  by (subst spec_greedy_run.simps) (simp add: nth_append)

lemma offset_loop_cases:
  fixes p e
  defines "run \<equiv> \<lambda>i. match_loop p e i [0..<length p] 0"
  shows "(offset_loop p e xs (bi, bl) = (bi, bl) \<and> (\<forall>x\<in>set xs. run x \<le> bl))
    \<or> (\<exists>ys x zs. xs = ys @ x # zs \<and> offset_loop p e xs (bi, bl) = (int x, run x)
          \<and> bl < run x \<and> (\<forall>y\<in>set ys. run y < run x) \<and> (\<forall>z\<in>set zs. run z \<le> run x))"
proof (induction xs arbitrary: bi bl)
  case Nil
  show ?case by simp
next
  case (Cons a xs)
  show ?case
  proof (cases "bl < run a")
    case True
    then have step: "offset_loop p e (a # xs) (bi, bl) = offset_loop p e xs (int a, run a)"
      by (simp add: run_def)
    from Cons.IH [of "int a" "run a"] show ?thesis
    proof (elim disjE exE conjE)
      assume "offset_loop p e xs (int a, run a) = (int a, run a)" "\<forall>x\<in>set xs. run x \<le> run a"
      with True step have "a # xs = [] @ a # xs \<and> offset_loop p e (a # xs) (bi, bl) = (int a, run a)
          \<and> bl < run a \<and> (\<forall>y\<in>set []. run y < run a) \<and> (\<forall>z\<in>set xs. run z \<le> run a)"
        by simp
      then show ?thesis by blast
    next
      fix ys x zs
      assume "xs = ys @ x # zs" "offset_loop p e xs (int a, run a) = (int x, run x)"
        "run a < run x" "\<forall>y\<in>set ys. run y < run x" "\<forall>z\<in>set zs. run z \<le> run x"
      with True step have "a # xs = (a # ys) @ x # zs \<and> offset_loop p e (a # xs) (bi, bl) = (int x, run x)
          \<and> bl < run x \<and> (\<forall>y\<in>set (a # ys). run y < run x) \<and> (\<forall>z\<in>set zs. run z \<le> run x)"
        by simp
      then show ?thesis by blast
    qed
  next
    case False
    then have step: "offset_loop p e (a # xs) (bi, bl) = offset_loop p e xs (bi, bl)"
      by (simp add: run_def)
    from Cons.IH [of bi bl] show ?thesis
    proof (elim disjE exE conjE)
      assume "offset_loop p e xs (bi, bl) = (bi, bl)" "\<forall>x\<in>set xs. run x \<le> bl"
      with False step show ?thesis by simp
    next
      fix ys x zs
      assume "xs = ys @ x # zs" "offset_loop p e xs (bi, bl) = (int x, run x)"
        "bl < run x" "\<forall>y\<in>set ys. run y < run x" "\<forall>z\<in>set zs. run z \<le> run x"
      with False step have "a # xs = (a # ys) @ x # zs \<and> offset_loop p e (a # xs) (bi, bl) = (int x, run x)
          \<and> bl < run x \<and> (\<forall>y\<in>set (a # ys). run y < run x) \<and> (\<forall>z\<in>set zs. run z \<le> run x)"
        by simp
      then show ?thesis by blast
    qed
  qed
qed

lemma upt_split:
  assumes "[0..<n] = ys @ x # zs"
  shows "x < n \<and> ys = [0..<x] \<and> zs = [Suc x..<n]"
proof -
  have len: "length ys < n" using arg_cong [OF assms, of length] by simp
  have "[0..<n] ! length ys = x" unfolding assms by simp
  with len have x: "length ys = x" by simp
  have "take (length ys) [0..<n] = ys" unfolding assms by simp
  then have ys: "ys = [0..<x]" using len unfolding x by simp
  have "drop (Suc (length ys)) [0..<n] = zs" unfolding assms by simp
  then have zs: "zs = [Suc x..<n]" unfolding x by simp
  from len have "x < n" unfolding x .
  with ys zs show ?thesis by blast
qed

lemma find_best_match_cases:
  "(find_best_match p prog = (- 1, 0) \<and> (\<forall>i<length prog. match_run p prog i = 0))
   \<or> (\<exists>x<length prog. find_best_match p prog = (int x, match_run p prog x)
         \<and> 0 < match_run p prog x
         \<and> (\<forall>y<x. match_run p prog y < match_run p prog x)
         \<and> (\<forall>z<length prog. match_run p prog z \<le> match_run p prog x))"
proof -
  let ?run = "\<lambda>i. match_loop p (prog @ prog) i [0..<length p] 0"
  have run: "?run = match_run p prog" by (simp add: match_run_def fun_eq_iff)
  from offset_loop_cases [of p "prog @ prog" "[0..<length prog]" "- 1" 0]
  show ?thesis
  proof (elim disjE exE conjE)
    assume a: "offset_loop p (prog @ prog) [0..<length prog] (- 1, 0) = (- 1, 0)"
      "\<forall>x\<in>set [0..<length prog]. ?run x \<le> 0"
    have "\<forall>i<length prog. match_run p prog i = 0"
    proof (intro allI impI)
      fix i assume "i < length prog"
      with a(2) have "match_run p prog i \<le> 0" by (simp add: match_run_def)
      with match_run_bounds(1) [of p prog i] show "match_run p prog i = 0" by simp
    qed
    with a(1) show ?thesis by (simp add: find_best_match_def)
  next
    fix ys x zs
    assume a: "[0..<length prog] = ys @ x # zs"
      "offset_loop p (prog @ prog) [0..<length prog] (- 1, 0) = (int x, ?run x)"
      "0 < ?run x" "\<forall>y\<in>set ys. ?run y < ?run x" "\<forall>z\<in>set zs. ?run z \<le> ?run x"
    from upt_split [OF a(1)] have x: "x < length prog" and ys: "ys = [0..<x]"
      and zs: "zs = [Suc x..<length prog]" by simp_all
    have before: "\<forall>y<x. match_run p prog y < match_run p prog x"
      using a(4) unfolding ys by (simp add: match_run_def)
    have all: "\<forall>z<length prog. match_run p prog z \<le> match_run p prog x"
    proof (intro allI impI)
      fix z assume z: "z < length prog"
      consider "z < x" | "z = x" | "x < z" by arith
      then show "match_run p prog z \<le> match_run p prog x"
      proof cases
        case 1 with before show ?thesis by (simp add: less_imp_le)
      next
        case 2 then show ?thesis by simp
      next
        case 3 with z a(5) show ?thesis unfolding zs by (simp add: match_run_def)
      qed
    qed
    from a(2) a(3) have "find_best_match p prog = (int x, match_run p prog x)"
      "0 < match_run p prog x" by (simp_all add: find_best_match_def match_run_def)
    with x before all show ?thesis by blast
  qed
qed


lemma find_best_match_Max:
  assumes "prog \<noteq> []"
  shows "snd (find_best_match p prog) = Max (match_run p prog ` {..<length prog})"
proof -
  let ?S = "match_run p prog ` {..<length prog}"
  have fin: "finite ?S" by simp
  from find_best_match_cases [of p prog] show ?thesis
  proof (elim disjE exE conjE)
    assume a: "find_best_match p prog = (- 1, 0)" "\<forall>i<length prog. match_run p prog i = 0"
    from a(2) assms have "?S = {0}" by (auto simp: image_iff)
    with a(1) show ?thesis by simp
  next
    fix x
    assume a: "x < length prog" "find_best_match p prog = (int x, match_run p prog x)"
      "\<forall>z<length prog. match_run p prog z \<le> match_run p prog x"
    have "Max ?S = match_run p prog x"
    proof (rule Max_eqI [OF fin])
      show "match_run p prog x \<in> ?S" using a(1) by simp
    next
      fix y assume "y \<in> ?S"
      with a(3) show "y \<le> match_run p prog x" by auto
    qed
    with a(2) show ?thesis by simp
  qed
qed

lemma some_offset_matches:
  assumes "p \<noteq> []"
  shows "(\<exists>i<length prog. 0 < match_run p prog i) = (\<exists>c\<in>set prog. lower c = lower (hd p))"
proof -
  have hd: "hd p = p ! 0" using assms by (simp add: hd_conv_nth)
  have "(\<exists>i<length prog. 0 < match_run p prog i) = (\<exists>i<length prog. lower (prog ! i) = lower (p ! 0))"
    using match_run_pos [OF assms] by blast
  also have "\<dots> = (\<exists>c\<in>set prog. lower c = lower (p ! 0))"
    by (metis in_set_conv_nth)
  finally show ?thesis unfolding hd .
qed

section \<open>The matcher: what one offset counts\<close>

lemma spec_greedy_run_matches:
  "k < spec_greedy_run p e i j \<Longrightarrow>
     i + j + k < length e \<and> lower (e ! (i + j + k)) = lower (p ! ((j + k) mod length p))"
proof (induction p e i j arbitrary: k rule: spec_greedy_run.induct)
  case (1 p e i j)
  have go: "\<not> length e \<le> i + j \<and> lower (e ! (i + j)) = lower (p ! (j mod length p))"
  proof (rule ccontr)
    assume "\<not> ?thesis"
    then have "spec_greedy_run p e i j = 0"
      by (subst spec_greedy_run.simps) auto
    with "1.prems" show False by simp
  qed
  then have run: "spec_greedy_run p e i j = Suc (spec_greedy_run p e i (Suc j))"
    by (subst spec_greedy_run.simps) simp
  from go have go1: "\<not> length e \<le> i + j"
    and go2: "lower (e ! (i + j)) = lower (p ! (j mod length p))" by simp_all
  show ?case
  proof (cases k)
    case 0
    with go show ?thesis by simp
  next
    case (Suc k')
    with "1.prems" run have "k' < spec_greedy_run p e i (Suc j)" by simp
    from "1.IH" [OF go1 go2 this] Suc show ?thesis by simp
  qed
qed

lemma spec_greedy_run_stops:
  "length e \<le> i + j + spec_greedy_run p e i j
    \<or> lower (e ! (i + j + spec_greedy_run p e i j))
        \<noteq> lower (p ! ((j + spec_greedy_run p e i j) mod length p))"
proof (induction p e i j rule: spec_greedy_run.induct)
  case (1 p e i j)
  show ?case
  proof (cases "\<not> length e \<le> i + j \<and> lower (e ! (i + j)) = lower (p ! (j mod length p))")
    case True
    then have run: "spec_greedy_run p e i j = Suc (spec_greedy_run p e i (Suc j))"
      by (subst spec_greedy_run.simps) simp
    from True "1.IH" show ?thesis unfolding run by simp
  next
    case False
    then have "spec_greedy_run p e i j = 0"
      by (subst spec_greedy_run.simps) auto
    with False show ?thesis by auto
  qed
qed

lemma match_run_matches:
  assumes "int j < match_run p prog i"
  shows "i + j < 2 * length prog \<and> lower ((prog @ prog) ! (i + j)) = lower (p ! j)"
proof -
  from assms have j: "j < length p" "j < spec_greedy_run p (prog @ prog) i 0"
    by (simp_all add: match_run_capped)
  from spec_greedy_run_matches [OF j(2)] j(1) show ?thesis by simp
qed

lemma match_run_stops:
  assumes "match_run p prog i < int (length p)"
  shows "2 * length prog \<le> i + nat (match_run p prog i)
    \<or> lower ((prog @ prog) ! (i + nat (match_run p prog i))) \<noteq> lower (p ! nat (match_run p prog i))"
proof -
  let ?s = "spec_greedy_run p (prog @ prog) i 0"
  from assms have s: "match_run p prog i = int ?s" "?s < length p"
    by (simp_all add: match_run_capped min_def split: if_splits)
  from spec_greedy_run_stops [of "prog @ prog" i 0 p] s(2) show ?thesis
    unfolding s(1) by (simp add: mult_2)
qed

text \<open>
  C1 (amended): for every non-empty pattern and non-empty progression, the run length
  that \<open>find_best_match\<close> counts at a start offset \<open>i\<close> below the length of the progression
  is the greedy run of the specification (the doubled progression read at \<open>i + j\<close> against
  the pattern at \<open>j mod len(pattern)\<close>, case-insensitively, up to the first mismatch or the
  end of the doubled progression) cut off at the length of the pattern: \<open>j\<close> runs over
  \<open>range(len(pattern))\<close>, so the run never goes on past one pass of the pattern. Every
  position below the run length is a match inside the doubled progression, and a run
  shorter than the pattern ends at a mismatch or at the end of the doubled progression.
  The match length returned is the greatest of these run lengths.
\<close>

theorem greedy_run_stops_at_pattern_end:
  assumes "pattern \<noteq> []" and "prog \<noteq> []"
  shows "(\<forall>i<length prog.
            match_run pattern prog i
              = min (int (length pattern)) (int (spec_greedy_run pattern (prog @ prog) i 0))
          \<and> (\<forall>j. int j < match_run pattern prog i \<longrightarrow>
                i + j < 2 * length prog
                \<and> lower ((prog @ prog) ! (i + j)) = lower (pattern ! j))
          \<and> (match_run pattern prog i < int (length pattern) \<longrightarrow>
                2 * length prog \<le> i + nat (match_run pattern prog i)
                \<or> lower ((prog @ prog) ! (i + nat (match_run pattern prog i)))
                    \<noteq> lower (pattern ! nat (match_run pattern prog i))))
    \<and> snd (find_best_match pattern prog) = Max (match_run pattern prog ` {..<length prog})"
  using find_best_match_Max [OF assms(2)] match_run_capped match_run_matches match_run_stops
  by blast

theorem greedy_run_stops_at_pattern_end_witness:
  "[''G''] \<noteq> [] \<and> [''G'', ''G''] \<noteq> [] \<and> (0::nat) < length [''G'', ''G'']
    \<and> match_run [''G''] [''G'', ''G''] 0
        = min (int (length [''G''])) (int (spec_greedy_run [''G''] ([''G'', ''G''] @ [''G'', ''G'']) 0 0))
    \<and> snd (find_best_match [''G''] [''G'', ''G''])
        = Max (match_run [''G''] [''G'', ''G''] ` {..<length [''G'', ''G'']})"
  using greedy_run_stops_at_pattern_end [of "[''G'']" "[''G'', ''G'']"] by simp

text \<open>
  The claim as it was written has \<open>j\<close> run on with no bound, the pattern cycling. With the
  pattern \<open>["G"]\<close> and the progression \<open>["G", "G"]\<close> that run has length 4 at offset 0; the
  code counts 1.
\<close>

theorem unbounded_run_counterexample:
  "match_run [''G''] [''G'', ''G''] 0 = 1
    \<and> spec_greedy_run [''G''] ([''G'', ''G''] @ [''G'', ''G'']) 0 0 = 4
    \<and> find_best_match [''G''] [''G'', ''G''] = (0, 1)"
  by code_simp

section \<open>The matcher: the sentinel and the winning offset\<close>

text \<open>
  C6: for every non-empty pattern and non-empty progression, \<open>find_best_match\<close> returns
  the match length 0 with the sentinel start index \<open>-1\<close> exactly when no chord of the
  progression equals the first chord of the pattern case-insensitively; when some chord
  does, the match length is positive and the start index is an offset of the progression.
\<close>

theorem no_match_sentinel:
  assumes "pattern \<noteq> []" and "prog \<noteq> []"
  shows "((find_best_match pattern prog = (- 1, 0)) = (\<forall>c\<in>set prog. lower c \<noteq> lower (hd pattern)))
    \<and> ((snd (find_best_match pattern prog) = 0) = (\<forall>c\<in>set prog. lower c \<noteq> lower (hd pattern)))
    \<and> ((\<exists>c\<in>set prog. lower c = lower (hd pattern)) \<longrightarrow>
          0 < snd (find_best_match pattern prog)
          \<and> 0 \<le> fst (find_best_match pattern prog)
          \<and> fst (find_best_match pattern prog) < int (length prog))"
proof -
  note some = some_offset_matches [OF assms(1), of prog]
  from find_best_match_cases [of pattern prog] show ?thesis
  proof (elim disjE exE conjE)
    assume a: "find_best_match pattern prog = (- 1, 0)" "\<forall>i<length prog. match_run pattern prog i = 0"
    from a(2) have "\<not> (\<exists>i<length prog. 0 < match_run pattern prog i)" by simp
    with some have "\<forall>c\<in>set prog. lower c \<noteq> lower (hd pattern)" by blast
    with a(1) show ?thesis by simp
  next
    fix x
    assume a: "x < length prog" "find_best_match pattern prog = (int x, match_run pattern prog x)"
      "0 < match_run pattern prog x"
    from a(1) a(3) have "\<exists>i<length prog. 0 < match_run pattern prog i" by blast
    with some have "\<exists>c\<in>set prog. lower c = lower (hd pattern)" by simp
    with a show ?thesis by auto
  qed
qed

theorem no_match_sentinel_witness:
  "[''D'', ''G''] \<noteq> [] \<and> [''G'', ''C'', ''G'', ''D''] \<noteq> []
    \<and> (\<exists>c\<in>set [''G'', ''C'', ''G'', ''D'']. lower c = lower (hd [''D'', ''G'']))
    \<and> 0 < snd (find_best_match [''D'', ''G''] [''G'', ''C'', ''G'', ''D''])
    \<and> 0 \<le> fst (find_best_match [''D'', ''G''] [''G'', ''C'', ''G'', ''D''])
    \<and> fst (find_best_match [''D'', ''G''] [''G'', ''C'', ''G'', ''D'']) < int (length [''G'', ''C'', ''G'', ''D''])"
proof -
  have some: "\<exists>c\<in>set [''G'', ''C'', ''G'', ''D'']. lower c = lower (hd [''D'', ''G''])"
    by code_simp
  from no_match_sentinel [of "[''D'', ''G'']" "[''G'', ''C'', ''G'', ''D'']"] some
  show ?thesis by simp
qed

text \<open>
  C7 (amended): for every non-empty pattern and non-empty progression, no offset has a
  longer run than the match length returned; when that length is positive, the start
  index returned is the lowest offset whose run has that length (a later offset with an
  equal run does not replace it); when it is 0, the start index is the sentinel \<open>-1\<close>,
  not an offset.
\<close>

theorem first_longest_run_wins:
  assumes "pattern \<noteq> []" and "prog \<noteq> []"
  shows "(\<forall>k<length prog. match_run pattern prog k \<le> snd (find_best_match pattern prog))
    \<and> (if 0 < snd (find_best_match pattern prog)
        then \<exists>i<length prog. fst (find_best_match pattern prog) = int i
               \<and> match_run pattern prog i = snd (find_best_match pattern prog)
               \<and> (\<forall>k<i. match_run pattern prog k < snd (find_best_match pattern prog))
        else fst (find_best_match pattern prog) = - 1)"
proof -
  from find_best_match_cases [of pattern prog] show ?thesis
  proof (elim disjE exE conjE)
    assume a: "find_best_match pattern prog = (- 1, 0)" "\<forall>i<length prog. match_run pattern prog i = 0"
    then show ?thesis by simp
  next
    fix x
    assume a: "x < length prog" "find_best_match pattern prog = (int x, match_run pattern prog x)"
      "0 < match_run pattern prog x"
      "\<forall>y<x. match_run pattern prog y < match_run pattern prog x"
      "\<forall>z<length prog. match_run pattern prog z \<le> match_run pattern prog x"
    then show ?thesis by auto
  qed
qed

theorem first_longest_run_wins_witness:
  "[''D'', ''G''] \<noteq> [] \<and> [''G'', ''C'', ''G'', ''D''] \<noteq> []
    \<and> 0 < snd (find_best_match [''D'', ''G''] [''G'', ''C'', ''G'', ''D''])
    \<and> (\<exists>i<length [''G'', ''C'', ''G'', ''D''].
          fst (find_best_match [''D'', ''G''] [''G'', ''C'', ''G'', ''D'']) = int i
          \<and> match_run [''D'', ''G''] [''G'', ''C'', ''G'', ''D''] i
              = snd (find_best_match [''D'', ''G''] [''G'', ''C'', ''G'', ''D''])
          \<and> (\<forall>k<i. match_run [''D'', ''G''] [''G'', ''C'', ''G'', ''D''] k
                < snd (find_best_match [''D'', ''G''] [''G'', ''C'', ''G'', ''D''])))"
proof -
  have pos: "0 < snd (find_best_match [''D'', ''G''] [''G'', ''C'', ''G'', ''D''])"
    by code_simp
  from first_longest_run_wins [of "[''D'', ''G'']" "[''G'', ''C'', ''G'', ''D'']"] pos
  show ?thesis by simp
qed

text \<open>
  With the pattern \<open>["F"]\<close> and the progression \<open>["G", "C"]\<close> every offset has the run
  length 0, which is the greatest; the lowest offset with it is 0, and the start index
  returned is \<open>-1\<close>.
\<close>

theorem lowest_offset_counterexample:
  "find_best_match [''F''] [''G'', ''C''] = (- 1, 0)
    \<and> match_run [''F''] [''G'', ''C''] 0 = 0 \<and> match_run [''F''] [''G'', ''C''] 1 = 0"
  by code_simp


section \<open>The tokenizer: repeat markers\<close>

lemma findall_snoc_mark:
  assumes "is_mark m"
  shows "findall (input @ [m]) = findall input @ [[m]]"
proof (induction input rule: findall.induct)
  case 1
  from assms show ?case by simp
next
  case (2 c)
  from assms have "\<not> is_accidental m" by (auto simp: is_mark_def is_accidental_def)
  with assms show ?case by simp
next
  case (3 c d rest)
  then show ?case by simp
qed

lemma parse_loop_done: "length tokens \<le> i \<Longrightarrow> parse_loop tokens i out = out"
  by (subst parse_loop.simps) simp

lemma parse_loop_mark_step:
  assumes "i < length tokens" and "tokens ! i = ''%'' \<or> tokens ! i = ''/''"
  shows "parse_loop tokens i out
    = parse_loop tokens (Suc i) (if out = [] then [] else out @ [last out])"
  using assms by (subst parse_loop.simps) auto

lemma parse_loop_snoc:
  "i \<le> length tokens \<Longrightarrow>
     parse_loop (tokens @ [t]) i out = parse_loop [t] 0 (parse_loop tokens i out)"
proof (induction "length tokens - i" arbitrary: i out)
  case 0
  then have i: "i = length tokens" by simp
  show ?case
    unfolding i
    by (simp add: parse_loop.simps [of "tokens @ [t]" "length tokens" out]
        parse_loop.simps [of "[t]" 0 out] parse_loop_done Let_def)
next
  case (Suc n)
  then have lt: "i < length tokens" and n: "n = length tokens - Suc i"
    and le: "Suc i \<le> length tokens" by simp_all
  note IH = Suc.hyps(1) [OF n le]
  from lt have lt': "i < Suc (length tokens)" by simp
  show ?case
    by (simp add: parse_loop.simps [of "tokens @ [t]" i out]
        parse_loop.simps [of tokens i out] lt lt' nth_append IH Let_def)
qed

lemma parse_snoc_mark:
  assumes "m = CHR ''%'' \<or> m = CHR ''/''"
  shows "parse_progression_from_text (input @ [m])
    = (if parse_progression_from_text input = [] then []
       else parse_progression_from_text input @ [last (parse_progression_from_text input)])"
proof -
  from assms have mark: "is_mark m" by (auto simp: is_mark_def)
  have one: "parse_loop [[m]] 0 out = (if out = [] then [] else out @ [last out])" for out
    using assms parse_loop_mark_step [of 0 "[[m]]" out] by (auto simp: parse_loop_done)
  show ?thesis
    unfolding parse_progression_from_text_def findall_snoc_mark [OF mark]
    by (simp add: parse_loop_snoc one)
qed


lemma mark_not_root: "is_mark m \<Longrightarrow> \<not> is_root m \<and> \<not> is_accidental m"
  by (auto simp: is_mark_def is_root_def is_accidental_def)

lemma findall_mark_Cons:
  assumes "is_mark m"
  shows "findall (m # post) = [m] # findall post"
  using assms mark_not_root [OF assms] by (cases post) simp_all

lemma findall_mark_split:
  assumes "is_mark m"
  shows "findall (pre @ m # post) = findall pre @ [m] # findall post"
proof (induction pre rule: findall.induct)
  case 1
  show ?case by (simp add: findall_mark_Cons [OF assms])
next
  case (2 c)
  from mark_not_root [OF assms] show ?case
    by (simp add: findall_mark_Cons [OF assms])
next
  case (3 c d rest)
  then show ?case by simp
qed

lemma parse_loop_shift:
  "parse_loop (ts @ us) (length ts + k) out = parse_loop us k out"
proof (induction "length us - k" arbitrary: k out)
  case 0
  then show ?case by (simp add: parse_loop_done)
next
  case (Suc n)
  then have lt: "k < length us" and n: "n = length us - Suc k" by simp_all
  from Suc.hyps(1) [OF n] have IH: "parse_loop (ts @ us) (Suc (length ts + k)) out'
      = parse_loop us (Suc k) out'" for out' by simp
  show ?case
    by (simp add: parse_loop.simps [of "ts @ us" "length ts + k" out]
        parse_loop.simps [of us k out] lt nth_append IH Let_def)
qed

lemma parse_loop_append:
  "i \<le> length ts \<Longrightarrow>
     parse_loop (ts @ us) i out = parse_loop us 0 (parse_loop ts i out)"
proof (induction "length ts - i" arbitrary: i out)
  case 0
  then have i: "i = length ts" by simp
  from parse_loop_shift [of ts us 0 out] show ?case
    unfolding i by (simp add: parse_loop_done)
next
  case (Suc n)
  then have lt: "i < length ts" and n: "n = length ts - Suc i"
    and le: "Suc i \<le> length ts" by simp_all
  note IH = Suc.hyps(1) [OF n le]
  from lt have lt': "i < length ts + length us" by simp
  show ?case
    by (simp add: parse_loop.simps [of "ts @ us" i out]
        parse_loop.simps [of ts i out] lt lt' nth_append IH Let_def)
qed

lemma parse_mark_anywhere:
  assumes "m = CHR ''%'' \<or> m = CHR ''/''"
  shows "parse_progression_from_text (pre @ m # post)
    = parse_loop (findall post) 0
        (if parse_progression_from_text pre = [] then []
         else parse_progression_from_text pre @ [last (parse_progression_from_text pre)])"
proof -
  from assms have mark: "is_mark m" by (auto simp: is_mark_def)
  have one: "parse_loop ([m] # us) 0 out
      = parse_loop us 0 (if out = [] then [] else out @ [last out])" for us out
  proof -
    have "parse_loop ([m] # us) 0 out
        = parse_loop ([m] # us) (Suc 0) (if out = [] then [] else out @ [last out])"
      using assms by (intro parse_loop_mark_step) auto
    also have "\<dots> = parse_loop us 0 (if out = [] then [] else out @ [last out])"
      using parse_loop_shift [of "[[m]]" us 0] by simp
    finally show ?thesis .
  qed
  show ?thesis
    unfolding parse_progression_from_text_def findall_mark_split [OF mark]
    by (simp add: parse_loop_append one)
qed

text \<open>
  C9: in \<open>parse\<close>, a repeat marker \<open>%\<close> or \<open>/\<close> appends a copy of the last token of the
  output when the output so far is not empty, and changes nothing when it is empty. A
  marker is a token of its own wherever it stands in the text, whatever comes before and
  after it; the loop at a marker token goes on with the output repeated or left empty;
  so the parse of a text with a marker in it is the loop over the tokens after the
  marker, started from the parse of the text before it with its last token repeated.
  \<open>parse("G % D")\<close> is \<open>["G", "G", "D"]\<close>, \<open>parse("% G")\<close> is \<open>["G"]\<close> and \<open>parse("C/G")\<close> is
  \<open>["C", "C", "G"]\<close>.
\<close>

theorem repeat_marker_duplicates_last:
  assumes "m = CHR ''%'' \<or> m = CHR ''/''"
  shows "(\<forall>tokens i out. i < length tokens \<and> tokens ! i = [m] \<longrightarrow>
            parse_loop tokens i out
              = parse_loop tokens (Suc i) (if out = [] then [] else out @ [last out]))
    \<and> parse_progression_from_text (input @ [m])
        = (if parse_progression_from_text input = [] then []
           else parse_progression_from_text input @ [last (parse_progression_from_text input)])
    \<and> parse_progression_from_text ''G % D'' = [''G'', ''G'', ''D'']
    \<and> parse_progression_from_text ''% G'' = [''G'']
    \<and> findall (pre @ m # post) = findall pre @ [m] # findall post
    \<and> parse_progression_from_text (pre @ m # post)
        = parse_loop (findall post) 0
            (if parse_progression_from_text pre = [] then []
             else parse_progression_from_text pre @ [last (parse_progression_from_text pre)])
    \<and> parse_progression_from_text ''C/G'' = [''C'', ''C'', ''G'']"
proof (intro conjI allI impI)
  fix tokens :: "string list" and i out
  assume "i < length tokens \<and> tokens ! i = [m]"
  with assms show "parse_loop tokens i out
      = parse_loop tokens (Suc i) (if out = [] then [] else out @ [last out])"
    by (intro parse_loop_mark_step) auto
next
  show "parse_progression_from_text (input @ [m])
        = (if parse_progression_from_text input = [] then []
           else parse_progression_from_text input @ [last (parse_progression_from_text input)])"
    by (rule parse_snoc_mark [OF assms])
next
  show "parse_progression_from_text ''G % D'' = [''G'', ''G'', ''D'']" by code_simp
next
  show "parse_progression_from_text ''% G'' = [''G'']" by code_simp
next
  from assms have "is_mark m" by (auto simp: is_mark_def)
  then show "findall (pre @ m # post) = findall pre @ [m] # findall post"
    by (rule findall_mark_split)
next
  show "parse_progression_from_text (pre @ m # post)
        = parse_loop (findall post) 0
            (if parse_progression_from_text pre = [] then []
             else parse_progression_from_text pre @ [last (parse_progression_from_text pre)])"
    by (rule parse_mark_anywhere [OF assms])
next
  show "parse_progression_from_text ''C/G'' = [''C'', ''C'', ''G'']" by code_simp
qed

theorem repeat_marker_duplicates_last_witness:
  "(CHR ''%'' = CHR ''%'' \<or> CHR ''%'' = CHR ''/'')
    \<and> parse_progression_from_text (''C G'' @ [CHR ''%'']) = [''C'', ''G'', ''G'']
    \<and> parse_progression_from_text ([] @ [CHR ''%'']) = []
    \<and> findall (''Am'' @ CHR ''%'' # ''G7'') = [''A'', ''%'', ''G'']
    \<and> parse_progression_from_text (''Am'' @ CHR ''%'' # ''G7'') = [''A'', ''A'', ''G'']"
proof -
  have c: "parse_progression_from_text ''C G'' = [''C'', ''G'']" by code_simp
  have e: "parse_progression_from_text [] = []" by code_simp
  have f: "findall ''Am'' = [''A'']" "findall ''G7'' = [''G'']" by code_simp+
  have a: "parse_progression_from_text ''Am'' = [''A'']" by code_simp
  have l: "parse_loop [''G''] 0 [''A'', ''A''] = [''A'', ''A'', ''G'']" by code_simp
  from repeat_marker_duplicates_last [of "CHR ''%''" "''C G''" "''Am''" "''G7''"]
    repeat_marker_duplicates_last [of "CHR ''%''" "[]"] c e f a l
  show ?thesis by simp
qed


section \<open>Ranking: the sort and the loop over the songs\<close>

lemma insert_reverse_mset: "mset (insert_reverse key x ys) = add_mset x (mset ys)"
  by (induction ys) simp_all

lemma sort_reverse_mset: "mset (sort_reverse key xs) = mset xs"
  by (induction xs) (simp_all add: insert_reverse_mset)

lemma sort_reverse_set: "set (sort_reverse key xs) = set xs"
  using sort_reverse_mset [of key xs] by (metis set_mset_mset)

lemma insert_reverse_set: "set (insert_reverse key x ys) = insert x (set ys)"
  using insert_reverse_mset [of key x ys] by (metis set_mset_mset set_mset_add_mset_insert)

lemma insert_reverse_sorted:
  "sorted_wrt (\<lambda>a b. key b \<le> key a) ys
    \<Longrightarrow> sorted_wrt (\<lambda>a b. key b \<le> key a) (insert_reverse key x ys)"
proof (induction ys)
  case Nil
  show ?case by simp
next
  case (Cons y ys)
  show ?case
  proof (cases "key y \<le> key x")
    case True
    with Cons.prems show ?thesis by (auto intro: order_trans)
  next
    case False
    with Cons show ?thesis by (auto simp: insert_reverse_set)
  qed
qed

lemma sort_reverse_sorted: "sorted_wrt (\<lambda>a b. key b \<le> key a) (sort_reverse key xs)"
  by (induction xs) (simp_all add: insert_reverse_sorted)

lemma insert_reverse_stable:
  "filter (\<lambda>y. key y = k) (insert_reverse key x ys)
    = (if key x = k then x # filter (\<lambda>y. key y = k) ys else filter (\<lambda>y. key y = k) ys)"
  by (induction ys) auto

lemma sort_reverse_stable:
  "filter (\<lambda>y. key y = k) (sort_reverse key xs) = filter (\<lambda>y. key y = k) xs"
  by (induction xs) (simp_all add: insert_reverse_stable)

lemma results_loop_map_filter:
  "results_loop current xs acc = acc @ List.map_filter (song_result current) xs"
  by (induction xs arbitrary: acc) (simp_all add: map_filter_simps split: option.split)

lemma song_result_Some:
  assumes "song_result current s = Some r"
  shows "fst r = s \<and> progression s \<noteq> []
    \<and> 0 < snd (find_best_match current (progression s))
    \<and> fst (snd r) = min 1 (of_int (snd (find_best_match current (progression s)))
                              / of_int (int (length current)))
    \<and> snd (snd r) = next_chords_from (progression s)
         ((fst (find_best_match current (progression s)) + snd (find_best_match current (progression s)))
            mod int (length (progression s)))"
  using assms
  by (auto simp: song_result_def Let_def split: if_splits prod.splits)

lemma slice_to_prefix: "prefix (slice_to xs n) xs"
  by (simp add: slice_to_def take_is_prefix)

lemma subseq_results:
  "subseq (map fst (filter P (List.map_filter (song_result current) xs))) xs"
proof (induction xs)
  case Nil
  show ?case by (simp add: map_filter_simps)
next
  case (Cons s xs)
  show ?case
  proof (cases "song_result current s")
    case None
    with Cons show ?thesis by (simp add: map_filter_simps list_emb_Cons)
  next
    case (Some r)
    with song_result_Some [OF Some] Cons show ?thesis
      by (auto simp: map_filter_simps intro: list_emb_Cons)
  qed
qed

lemma next_chords_from_nth:
  assumes "xs \<noteq> []" and "0 \<le> start" and "k < 5"
  shows "next_chords_from xs start ! k = xs ! ((nat start + k) mod length xs)"
proof -
  have "nat ((start + int k) mod int (length xs)) = (nat start + k) mod length xs"
    using assms(1,2) by (simp add: nat_mod_distrib nat_add_distrib)
  with assms(3) show ?thesis by (simp add: next_chords_from_def)
qed

lemma next_chords_from_length: "length (next_chords_from xs start) = 5"
  by (simp add: next_chords_from_def)

lemma upt_5: "[0..<5] = [0, 1, 2, 3, 4]"
  by code_simp

lemma fbm_example: "find_best_match [''D'', ''G''] [''G'', ''C'', ''G'', ''D''] = (3, 2)"
  by code_simp

text \<open>
  C5: for the progression \<open>["G", "C", "G", "D"]\<close> and the pattern \<open>["D", "G"]\<close>,
  \<open>find_best_match\<close> returns the start index 3 and the match length 2; for a song with that
  progression the similarity is 1 and the next chords, from index \<open>(3 + 2) mod 4 = 1\<close> on
  with wraparound, are \<open>["C", "G", "D", "G", "C"]\<close>.
\<close>

theorem circular_match_example:
  "find_best_match [''D'', ''G''] [''G'', ''C'', ''G'', ''D''] = (3, 2)
    \<and> song_result [''D'', ''G''] (s\<lparr>progression := [''G'', ''C'', ''G'', ''D'']\<rparr>)
        = Some (s\<lparr>progression := [''G'', ''C'', ''G'', ''D'']\<rparr>, 1, [''C'', ''G'', ''D'', ''G'', ''C''])
    \<and> find_similar_progressions [(k, s\<lparr>progression := [''G'', ''C'', ''G'', ''D'']\<rparr>)] [''D'', ''G''] 5
        = [(s\<lparr>progression := [''G'', ''C'', ''G'', ''D'']\<rparr>, 1, [''C'', ''G'', ''D'', ''G'', ''C''])]"
proof -
  have r: "song_result [''D'', ''G''] (s\<lparr>progression := [''G'', ''C'', ''G'', ''D'']\<rparr>)
        = Some (s\<lparr>progression := [''G'', ''C'', ''G'', ''D'']\<rparr>, 1, [''C'', ''G'', ''D'', ''G'', ''C''])"
    by (simp add: song_result_def fbm_example next_chords_from_def upt_5)
  show ?thesis
    by (simp add: fbm_example r find_similar_progressions_def dict_values_def slice_to_def)
qed

lemma sorted_wrt_prefix:
  assumes "prefix xs ys" and "sorted_wrt R ys"
  shows "sorted_wrt R xs"
  using assms by (auto simp: prefix_def sorted_wrt_append)

lemma slice_to_subset: "x \<in> set (slice_to xs n) \<Longrightarrow> x \<in> set xs"
  using set_mono_prefix [OF slice_to_prefix, of xs n] by (rule subsetD)

text \<open>
  C10: for every entry of the list that \<open>find_similar_progressions\<close> returns, the song is
  one of the catalog with a non-empty progression, and the next chords are exactly 5,
  the chord at position \<open>k\<close> being the progression's chord at
  \<open>((start_index + match_length) mod len(progression) + k) mod len(progression)\<close>: a
  progression of fewer than 5 chords is gone round more than once.
\<close>

theorem next_chords_wrap:
  assumes "(s, similarity, next_chords) \<in> set (find_similar_progressions catalog current top_n)"
  shows "s \<in> set (dict_values catalog) \<and> progression s \<noteq> [] \<and> length next_chords = 5
    \<and> (\<forall>k<5. next_chords ! k
          = progression s !
              ((nat ((fst (find_best_match current (progression s))
                       + snd (find_best_match current (progression s)))
                     mod int (length (progression s))) + k)
               mod length (progression s)))"
proof -
  let ?r = "(s, similarity, next_chords)"
  let ?ranked = "sort_reverse similarity_of (results_loop current (dict_values catalog) [])"
  have "current \<noteq> []"
  proof
    assume "current = []"
    then have "find_similar_progressions catalog current top_n = []"
      by (simp add: find_similar_progressions_def)
    with assms show False by simp
  qed
  then have "find_similar_progressions catalog current top_n = slice_to ?ranked top_n"
    by (simp add: find_similar_progressions_def)
  with assms have "?r \<in> set (slice_to ?ranked top_n)" by simp
  then have "?r \<in> set ?ranked" by (rule slice_to_subset)
  then have "?r \<in> set (results_loop current (dict_values catalog) [])"
    by (simp only: sort_reverse_set)
  then have "?r \<in> set (List.map_filter (song_result current) (dict_values catalog))"
    by (simp only: results_loop_map_filter append_Nil)
  then obtain song where song: "song \<in> set (dict_values catalog)"
    and some: "song_result current song = Some ?r"
    by (auto simp: map_filter_def)
  from song_result_Some [OF some] have s: "song = s" and ne: "progression s \<noteq> []"
    and chords: "next_chords = next_chords_from (progression s)
         ((fst (find_best_match current (progression s)) + snd (find_best_match current (progression s)))
            mod int (length (progression s)))"
    by auto
  have nonneg: "0 \<le> (fst (find_best_match current (progression s))
      + snd (find_best_match current (progression s))) mod int (length (progression s))"
    using ne by simp
  show ?thesis
    using song s ne
    by (simp add: chords next_chords_from_length next_chords_from_nth [OF ne nonneg])
qed

theorem next_chords_wrap_witness:
  "(\<lparr>title = ''A'', artist = ''x'', progression = [''G'', ''C''], all_chords = Chords [],
      source = ''s'', sections = []\<rparr>, 1, [''G'', ''C'', ''G'', ''C'', ''G''])
     \<in> set (find_similar_progressions
         [(''a'', \<lparr>title = ''A'', artist = ''x'', progression = [''G'', ''C''], all_chords = Chords [],
             source = ''s'', sections = []\<rparr>)] [''C''] 5)
    \<and> length [''G'', ''C'', ''G'', ''C'', ''G''] = (5::nat)
    \<and> \<lparr>title = ''A'', artist = ''x'', progression = [''G'', ''C''], all_chords = Chords [],
         source = ''s'', sections = []\<rparr>
       \<in> set (dict_values
         [(''a'', \<lparr>title = ''A'', artist = ''x'', progression = [''G'', ''C''], all_chords = Chords [],
             source = ''s'', sections = []\<rparr>)])"
proof -
  have mem: "(\<lparr>title = ''A'', artist = ''x'', progression = [''G'', ''C''], all_chords = Chords [],
      source = ''s'', sections = []\<rparr>, 1, [''G'', ''C'', ''G'', ''C'', ''G''])
     \<in> set (find_similar_progressions
         [(''a'', \<lparr>title = ''A'', artist = ''x'', progression = [''G'', ''C''], all_chords = Chords [],
             source = ''s'', sections = []\<rparr>)] [''C''] 5)"
    by code_simp
  from next_chords_wrap [OF mem] mem show ?thesis by blast
qed

text \<open>
  C8: for every non-empty current progression and every catalog, the list that
  \<open>find_similar_progressions\<close> returns is in descending order of similarity; its entries
  of one similarity are in the order in which the catalog iterates over their songs; and
  it is a prefix of the ranked list, the first \<open>top_n\<close> entries of it for a \<open>top_n\<close> that is
  not negative. The ranked list is the one list that holds the same entries as the loop
  over the catalog collected, is in descending order of similarity, and keeps the entries
  of each similarity in the order in which they were collected.
\<close>

theorem find_similar_ranked:
  assumes "current \<noteq> []"
  shows "(\<exists>ranked.
        mset ranked = mset (results_loop current (dict_values catalog) [])
      \<and> sorted_wrt (\<lambda>a b. similarity_of b \<le> similarity_of a) ranked
      \<and> (\<forall>k. filter (\<lambda>r. similarity_of r = k) ranked
              = filter (\<lambda>r. similarity_of r = k) (results_loop current (dict_values catalog) []))
      \<and> find_similar_progressions catalog current top_n = slice_to ranked top_n
      \<and> prefix (find_similar_progressions catalog current top_n) ranked
      \<and> (0 \<le> top_n \<longrightarrow> find_similar_progressions catalog current top_n = take (nat top_n) ranked))
    \<and> sorted_wrt (\<lambda>a b. similarity_of b \<le> similarity_of a)
         (find_similar_progressions catalog current top_n)
    \<and> (\<forall>k. subseq
          (map fst (filter (\<lambda>r. similarity_of r = k) (find_similar_progressions catalog current top_n)))
          (dict_values catalog))"
proof -
  let ?cands = "results_loop current (dict_values catalog) []"
  let ?ranked = "sort_reverse similarity_of ?cands"
  let ?R = "find_similar_progressions catalog current top_n"
  have R: "?R = slice_to ?ranked top_n"
    using assms by (simp add: find_similar_progressions_def)
  have pre: "prefix ?R ?ranked" unfolding R by (rule slice_to_prefix)
  have tk: "0 \<le> top_n \<longrightarrow> ?R = take (nat top_n) ?ranked"
    unfolding R by (simp add: slice_to_def)
  have srt: "sorted_wrt (\<lambda>a b. similarity_of b \<le> similarity_of a) ?ranked"
    by (rule sort_reverse_sorted)
  have stable: "filter (\<lambda>r. similarity_of r = k) ?ranked = filter (\<lambda>r. similarity_of r = k) ?cands"
    for k by (rule sort_reverse_stable)
  have first: "\<exists>ranked.
        mset ranked = mset ?cands
      \<and> sorted_wrt (\<lambda>a b. similarity_of b \<le> similarity_of a) ranked
      \<and> (\<forall>k. filter (\<lambda>r. similarity_of r = k) ranked = filter (\<lambda>r. similarity_of r = k) ?cands)
      \<and> ?R = slice_to ranked top_n
      \<and> prefix ?R ranked
      \<and> (0 \<le> top_n \<longrightarrow> ?R = take (nat top_n) ranked)"
    using sort_reverse_mset [of similarity_of ?cands] srt stable R pre tk by blast
  have second: "sorted_wrt (\<lambda>a b. similarity_of b \<le> similarity_of a) ?R"
    using pre srt by (rule sorted_wrt_prefix)
  have third: "subseq (map fst (filter (\<lambda>r. similarity_of r = k) ?R)) (dict_values catalog)" for k
  proof -
    have "prefix (map fst (filter (\<lambda>r. similarity_of r = k) ?R))
        (map fst (filter (\<lambda>r. similarity_of r = k) ?ranked))"
      using pre by (intro map_mono_prefix filter_mono_prefix)
    then have "subseq (map fst (filter (\<lambda>r. similarity_of r = k) ?R))
        (map fst (filter (\<lambda>r. similarity_of r = k) ?cands))"
      unfolding stable by (rule prefix_imp_subseq)
    also have "subseq (map fst (filter (\<lambda>r. similarity_of r = k) ?cands)) (dict_values catalog)"
      by (simp add: results_loop_map_filter subseq_results)
    finally show ?thesis .
  qed
  from first second third show ?thesis by blast
qed

theorem find_similar_ranked_witness:
  "[''G''] \<noteq> [] \<and> (0::int) \<le> 5
    \<and> sorted_wrt (\<lambda>a b. similarity_of b \<le> similarity_of a)
         (find_similar_progressions
            [(''a'', Song ''A'' ''x'' [''G'', ''C''] None None None),
             (''b'', Song ''B'' ''x'' [''C'', ''G''] None None None)] [''G''] 5)
    \<and> subseq
         (map fst (filter (\<lambda>r. similarity_of r = 1)
            (find_similar_progressions
               [(''a'', Song ''A'' ''x'' [''G'', ''C''] None None None),
                (''b'', Song ''B'' ''x'' [''C'', ''G''] None None None)] [''G''] 5)))
         (dict_values
            [(''a'', Song ''A'' ''x'' [''G'', ''C''] None None None),
             (''b'', Song ''B'' ''x'' [''C'', ''G''] None None None)])
    \<and> find_similar_progressions
         [(''a'', Song ''A'' ''x'' [''G'', ''C''] None None None),
          (''b'', Song ''B'' ''x'' [''C'', ''G''] None None None)] [''G''] 5
       = [(Song ''A'' ''x'' [''G'', ''C''] None None None, 1, [''C'', ''G'', ''C'', ''G'', ''C'']),
          (Song ''B'' ''x'' [''C'', ''G''] None None None, 1, [''C'', ''G'', ''C'', ''G'', ''C''])]"
proof -
  have ne: "[''G''] \<noteq> []" by simp
  have v: "find_similar_progressions
         [(''a'', Song ''A'' ''x'' [''G'', ''C''] None None None),
          (''b'', Song ''B'' ''x'' [''C'', ''G''] None None None)] [''G''] 5
       = [(Song ''A'' ''x'' [''G'', ''C''] None None None, 1, [''C'', ''G'', ''C'', ''G'', ''C'']),
          (Song ''B'' ''x'' [''C'', ''G''] None None None, 1, [''C'', ''G'', ''C'', ''G'', ''C''])]"
    by code_simp
  from find_similar_ranked [OF ne,
      of "[(''a'', Song ''A'' ''x'' [''G'', ''C''] None None None),
           (''b'', Song ''B'' ''x'' [''C'', ''G''] None None None)]" 5] v
  show ?thesis by simp
qed


section \<open>Storage: loading and adding\<close>

lemma dict_set_get: "dict_get (dict_set d k v) k = Some v"
  by (induction d k v rule: dict_set.induct) (simp_all add: dict_get_def)

lemma dict_set_keys:
  "map fst (dict_set d k v) = (if k \<in> set (map fst d) then map fst d else map fst d @ [k])"
  by (induction d k v rule: dict_set.induct) auto

text \<open>
  What \<open>add_song\<close> does for every input: the key is the title in lower case, an entry
  with that key is replaced where it stands and the catalog keeps its size, a new key
  goes to the end; title, artist and progression are the arguments; the fourth argument
  is stored as \<open>all_chords\<close>, and \<open>source\<close> is the default of the dataclass.
\<close>

lemma add_song_entry:
  assumes "writable db"
  shows "\<exists>db'. add_song db t a p s = Returned db'
    \<and> dict_get (songs db') (lower t)
        = Some \<lparr>title = t, artist = a, progression = p, all_chords = Text s,
                source = ''Jerry Garcia Song Book'', sections = []\<rparr>
    \<and> map fst (songs db')
        = (if lower t \<in> set (map fst (songs db)) then map fst (songs db)
           else map fst (songs db) @ [lower t])
    \<and> songs_json db' = Records (map song_record (dict_values (songs db')))"
  using assms by (simp add: add_song_def save_songs_def Song_def dict_set_get dict_set_keys)

text \<open>
  C3, at an input where the code and the claim part: \<open>add_song("Dark Star", "Grateful
  Dead", ["A", "G"], "Live 1972")\<close> on an empty catalog. The song stored has the source
  \<open>"Jerry Garcia Song Book"\<close>, not \<open>"Live 1972"\<close>, which is in \<open>all_chords\<close>; the file gets
  the default source as well.
\<close>

theorem add_song_source_not_stored:
  "add_song \<lparr>songs = [], songs_json = NoFile, writable = True\<rparr>
      ''Dark Star'' ''Grateful Dead'' [''A'', ''G''] ''Live 1972''
    = Returned
        \<lparr>songs = [(''dark star'',
           \<lparr>title = ''Dark Star'', artist = ''Grateful Dead'', progression = [''A'', ''G''],
            all_chords = Text ''Live 1972'', source = ''Jerry Garcia Song Book'',
            sections = []\<rparr>)],
         songs_json = Records [[Title ''Dark Star'', Artist ''Grateful Dead'',
           Progression [''A'', ''G''], Source ''Jerry Garcia Song Book'']],
         writable = True\<rparr>"
  by code_simp


lemma member_of_None: "(member_of f d = None) = (\<forall>e\<in>set d. f e = None)"
proof -
  have "(List.map_filter f d = []) = (\<forall>e\<in>set d. f e = None)"
    by (simp add: map_filter_def filter_empty_conv)
  then show ?thesis
    by (cases "List.map_filter f d") (simp_all add: member_of_def)
qed

lemma malformed_record_iff:
  "malformed_record d =
     ((\<exists>k. Unexpected k \<in> set d) \<or> (\<forall>v. Title v \<notin> set d)
      \<or> (\<forall>v. Artist v \<notin> set d) \<or> (\<forall>v. Progression v \<notin> set d))"
proof -
  have "(case e of Unexpected k \<Rightarrow> True | _ \<Rightarrow> False) = (\<exists>k. e = Unexpected k)" for e
    by (cases e) simp_all
  then have u: "list_ex (\<lambda>e. case e of Unexpected k \<Rightarrow> True | _ \<Rightarrow> False) d = (\<exists>k. Unexpected k \<in> set d)"
    by (auto simp: list_ex_iff)
  have t: "list_all (\<lambda>e. case e of Title v \<Rightarrow> False | _ \<Rightarrow> True) d = (\<forall>v. Title v \<notin> set d)"
    by (auto simp: list_all_iff split: entry.splits)
  have a: "list_all (\<lambda>e. case e of Artist v \<Rightarrow> False | _ \<Rightarrow> True) d = (\<forall>v. Artist v \<notin> set d)"
    by (auto simp: list_all_iff split: entry.splits)
  have p: "list_all (\<lambda>e. case e of Progression v \<Rightarrow> False | _ \<Rightarrow> True) d = (\<forall>v. Progression v \<notin> set d)"
    by (auto simp: list_all_iff split: entry.splits)
  show ?thesis unfolding malformed_record_def u t a p ..
qed

lemma Song_of_data_malformed:
  assumes "malformed_record d"
  shows "Song_of_data d = Inl TypeError"
proof (cases "\<exists>k. Unexpected k \<in> set d")
  case True
  then have "\<exists>e\<in>set d. case e of Unexpected k \<Rightarrow> True | _ \<Rightarrow> False" by force
  then show ?thesis by (simp add: Song_of_data_def)
next
  case False
  with assms have "(\<forall>v. Title v \<notin> set d) \<or> (\<forall>v. Artist v \<notin> set d) \<or> (\<forall>v. Progression v \<notin> set d)"
    by (simp add: malformed_record_iff)
  then have "member_of (\<lambda>e. case e of Title v \<Rightarrow> Some v | _ \<Rightarrow> None) d = None
    \<or> member_of (\<lambda>e. case e of Artist v \<Rightarrow> Some v | _ \<Rightarrow> None) d = None
    \<or> member_of (\<lambda>e. case e of Progression v \<Rightarrow> Some v | _ \<Rightarrow> None) d = None"
    unfolding member_of_None by (auto split: entry.splits)
  then show ?thesis
    by (auto simp: Song_of_data_def split: option.splits)
qed

lemma Song_of_data_wellformed:
  assumes "\<not> malformed_record d"
  shows "\<exists>s. Song_of_data d = Inr s"
proof -
  from assms have u: "\<not> (\<exists>e\<in>set d. case e of Unexpected k \<Rightarrow> True | _ \<Rightarrow> False)"
    by (auto simp: malformed_record_iff split: entry.splits)
  from assms obtain vt va vp where "Title vt \<in> set d" "Artist va \<in> set d" "Progression vp \<in> set d"
    by (auto simp: malformed_record_iff)
  then have "member_of (\<lambda>e. case e of Title v \<Rightarrow> Some v | _ \<Rightarrow> None) d \<noteq> None"
    "member_of (\<lambda>e. case e of Artist v \<Rightarrow> Some v | _ \<Rightarrow> None) d \<noteq> None"
    "member_of (\<lambda>e. case e of Progression v \<Rightarrow> Some v | _ \<Rightarrow> None) d \<noteq> None"
    unfolding member_of_None by force+
  with u show ?thesis
    by (auto simp: Song_of_data_def)
qed


lemma store_loop_wellformed:
  "\<forall>d\<in>set ds. \<not> malformed_record d \<Longrightarrow> \<exists>db'. store_loop ds db = Returned db'"
proof (induction ds arbitrary: db)
  case Nil
  show ?case by simp
next
  case (Cons d ds)
  from Cons.prems Song_of_data_wellformed [of d] obtain s where s: "Song_of_data d = Inr s"
    by auto
  from Cons.prems Cons.IH [of "db\<lparr>songs := dict_set (songs db) (lower (title s)) s\<rparr>"] s
  show ?case by simp
qed

lemma store_loop_malformed:
  "\<exists>d\<in>set ds. malformed_record d \<Longrightarrow>
     \<exists>db' pre. store_loop ds db = Raised TypeError db' \<and> prefix pre ds
       \<and> store_loop pre db = Returned db'"
proof (induction ds arbitrary: db)
  case Nil
  then show ?case by simp
next
  case (Cons d ds)
  show ?case
  proof (cases "malformed_record d")
    case True
    then have "store_loop (d # ds) db = Raised TypeError db \<and> prefix [] (d # ds)
        \<and> store_loop [] db = Returned db"
      by (simp add: Song_of_data_malformed)
    then show ?thesis by blast
  next
    case False
    with Song_of_data_wellformed obtain s where s: "Song_of_data d = Inr s" by blast
    let ?db = "db\<lparr>songs := dict_set (songs db) (lower (title s)) s\<rparr>"
    from False Cons.prems have "\<exists>d\<in>set ds. malformed_record d" by simp
    from Cons.IH [OF this, of ?db] obtain db' pre
      where "store_loop ds ?db = Raised TypeError db'" "prefix pre ds"
        "store_loop pre ?db = Returned db'" by blast
    with s have "store_loop (d # ds) db = Raised TypeError db' \<and> prefix (d # pre) (d # ds)
        \<and> store_loop (d # pre) db = Returned db'" by simp
    then show ?thesis by blast
  qed
qed

lemma store_loop_error:
  "store_loop ds db = Raised e db' \<Longrightarrow> e = TypeError"
proof (cases "\<exists>d\<in>set ds. malformed_record d")
  case True
  from store_loop_malformed [OF True, of db] show "store_loop ds db = Raised e db' \<Longrightarrow> e = TypeError"
    by auto
next
  case False
  then have "\<forall>d\<in>set ds. \<not> malformed_record d" by simp
  from store_loop_wellformed [OF this, of db] show "store_loop ds db = Raised e db' \<Longrightarrow> e = TypeError"
    by auto
qed










text \<open>
  Where the file is missing and cannot be written either, the sample songs are put into
  the catalog and \<open>_save_songs\<close> raises out of the \<open>except\<close> clause; the file stays absent.
\<close>

lemma load_missing_storage_unwritable:
  "(case SongDatabase NoFile False of
      Raised e db \<Rightarrow> e = OSError \<and> songs_json db = NoFile \<and> length (songs db) = 3
    | Returned db \<Rightarrow> False)"
  by code_simp


end
